theory Spec2Isabelle
  imports Main "HOL-Library.Char_ord" "HOL-Library.List_Lexorder"
begin

section \<open>The layered in-memory store of \<open>python-task.py\<close>\<close>

text \<open>
  The program keeps a stack of dictionaries (\<open>InMemoryDB._layers\<close>): index 0 is the
  base layer, the last element is the layer of the innermost open transaction. A
  dictionary value is either a string or the singleton \<open>DELETED\<close>.

  Python strings are modelled as \<open>string\<close>; a character stands for a code point below
  256. Strings are compared as Python compares them: lexicographically by code point
  (\<open>Char_ord\<close> and \<open>List_Lexorder\<close>).
\<close>

subsection \<open>Dictionaries\<close>

text \<open>
  An entry of a layer: \<open>Real v\<close> for a string value, \<open>Deleted\<close> for the module-level
  marker object \<open>DELETED\<close>.
\<close>

datatype entry = Real string | Deleted

text \<open>
  A Python \<open>dict\<close> keeps its items in insertion order and holds every key once. It is
  modelled as an association list; \<open>valid_dict\<close> says that no key occurs twice.
\<close>

type_synonym layer = "(string \<times> entry) list"

definition valid_dict :: "layer \<Rightarrow> bool" where
  "valid_dict d = distinct (map fst d)"

text \<open>\<open>d[key] = value\<close>: replaces the value of a key in place, appends a new key.\<close>

fun dict_set :: "layer \<Rightarrow> string \<Rightarrow> entry \<Rightarrow> layer" where
  "dict_set [] key value = [(key, value)]"
| "dict_set ((k, e) # d) key value =
     (if k = key then (key, value) # d else (k, e) # dict_set d key value)"

text \<open>
  \<open>key in d\<close> followed by \<open>d[key]\<close>: \<open>None\<close> when the key is not in the dictionary,
  otherwise the entry stored under it.
\<close>

definition dict_get :: "layer \<Rightarrow> string \<Rightarrow> entry option" where
  "dict_get d key = map_of d key"

text \<open>\<open>d.keys()\<close>, in iteration order.\<close>

definition dict_keys :: "layer \<Rightarrow> string list" where
  "dict_keys d = map fst d"

subsection \<open>The store\<close>

datatype error = IndexError | ValueError

record db =
  layers :: "layer list"

text \<open>\<open>InMemoryDB.__init__\<close>: one empty base layer.\<close>

definition init_db :: db where
  "init_db = \<lparr> layers = [[]] \<rparr>"

text \<open>\<open>_iter_layers_top_down\<close>: the layers from index \<open>len - 1\<close> down to 0.\<close>

definition iter_layers_top_down :: "db \<Rightarrow> layer list" where
  "iter_layers_top_down d = rev (layers d)"

text \<open>
  The loop of \<open>_effective_get\<close> over the layers it is given: the first layer holding
  the key decides; \<open>str(value)\<close> is the identity on a string.
\<close>

fun effective_get_loop :: "layer list \<Rightarrow> string \<Rightarrow> bool \<times> string option" where
  "effective_get_loop [] key = (False, None)"
| "effective_get_loop (layer # rest) key =
     (case dict_get layer key of
        None \<Rightarrow> effective_get_loop rest key
      | Some Deleted \<Rightarrow> (False, None)
      | Some (Real value) \<Rightarrow> (True, Some value))"

definition effective_get :: "db \<Rightarrow> string \<Rightarrow> bool \<times> string option" where
  "effective_get d key = effective_get_loop (iter_layers_top_down d) key"

text \<open>
  \<open>set_value\<close> and \<open>unset_value\<close> assign \<open>self._layers[-1][key]\<close>: the last layer
  is replaced by its update; on an empty list the index \<open>-1\<close> raises \<open>IndexError\<close>.
\<close>

definition set_value :: "db \<Rightarrow> string \<Rightarrow> string \<Rightarrow> error + db" where
  "set_value d key value =
     (if layers d = [] then Inl IndexError
      else Inr (d\<lparr>layers := butlast (layers d) @ [dict_set (last (layers d)) key (Real value)]\<rparr>))"

definition get_value :: "db \<Rightarrow> string \<Rightarrow> string option" where
  "get_value d key =
     (case effective_get d key of (exists, value) \<Rightarrow> if exists then value else None)"

definition unset_value :: "db \<Rightarrow> string \<Rightarrow> error + db" where
  "unset_value d key =
     (if layers d = [] then Inl IndexError
      else Inr (d\<lparr>layers := butlast (layers d) @ [dict_set (last (layers d)) key Deleted]\<rparr>))"

text \<open>\<open>begin\<close> (the name is an Isabelle keyword): appends an empty dictionary.\<close>

definition begin_tx :: "db \<Rightarrow> db" where
  "begin_tx d = d\<lparr>layers := layers d @ [[]]\<rparr>"

text \<open>\<open>rollback\<close>: \<open>pop()\<close> on an empty list raises \<open>IndexError\<close>.\<close>

definition rollback :: "db \<Rightarrow> error + (bool \<times> db)" where
  "rollback d =
     (if length (layers d) = 1 then Inr (False, d)
      else if layers d = [] then Inl IndexError
      else Inr (True, d\<lparr>layers := butlast (layers d)\<rparr>))"

text \<open>
  \<open>commit\<close>: the loop writes the items of \<open>top\<close>, in their order, into \<open>below\<close>, which
  is the element at index \<open>-2\<close>; then the last element is popped.
\<close>

definition commit_loop :: "layer \<Rightarrow> layer \<Rightarrow> layer" where
  "commit_loop top_layer below = fold (\<lambda>(k, v) b. dict_set b k v) top_layer below"

definition commit :: "db \<Rightarrow> error + (bool \<times> db)" where
  "commit d =
     (if length (layers d) = 1 then Inr (False, d)
      else if length (layers d) < 2 then Inl IndexError
      else
        let top_layer = last (layers d);
            below = last (butlast (layers d))
        in Inr (True,
             d\<lparr>layers := butlast (butlast (layers d)) @ [commit_loop top_layer below]\<rparr>))"

text \<open>\<open>_all_keys\<close>: the union of the key sets of all layers.\<close>

definition all_keys :: "db \<Rightarrow> string set" where
  "all_keys d = fold (\<lambda>layer keys. keys \<union> set (dict_keys layer)) (layers d) {}"

text \<open>
  Python does not fix the order in which a \<open>set\<close> is iterated. The order is a
  parameter of the model: a function that lists the elements of a set. \<open>iterates\<close> says
  that it lists every element of a given set, each once, as the iteration of a Python
  set does. \<open>descending\<close> is one such order on finite sets.
\<close>

type_synonym set_order = "string set \<Rightarrow> string list"

definition iterates :: "set_order \<Rightarrow> string set \<Rightarrow> bool" where
  "iterates iter keys \<longleftrightarrow> distinct (iter keys) \<and> set (iter keys) = keys"

definition descending :: set_order where
  "descending keys = rev (sorted_list_of_set keys)"

definition count_loop :: "db \<Rightarrow> string \<Rightarrow> string list \<Rightarrow> int" where
  "count_loop d value keys =
     fold (\<lambda>key count.
             case effective_get d key of
               (exists, eff) \<Rightarrow> if exists \<and> eff = Some value then count + 1 else count)
       keys 0"

definition count_value :: "set_order \<Rightarrow> db \<Rightarrow> string \<Rightarrow> int" where
  "count_value iter d value = count_loop d value (iter (all_keys d))"

definition find_loop :: "db \<Rightarrow> string \<Rightarrow> string list \<Rightarrow> string list" where
  "find_loop d value keys =
     fold (\<lambda>key found.
             case effective_get d key of
               (exists, eff) \<Rightarrow> if exists \<and> eff = Some value then found @ [key] else found)
       keys []"

definition find_keys_by_value :: "set_order \<Rightarrow> db \<Rightarrow> string \<Rightarrow> string list" where
  "find_keys_by_value iter d value = sort (find_loop d value (iter (all_keys d)))"

subsection \<open>Strings of the command loop\<close>

text \<open>
  The characters below 256 for which \<open>str.isspace\<close> holds; \<open>strip()\<close> and \<open>split()\<close>
  without arguments use the same test.
\<close>

definition isspace :: "char \<Rightarrow> bool" where
  "isspace c = (c \<in> set [CHR 0x09, CHR 0x0A, CHR 0x0B, CHR 0x0C, CHR 0x0D,
                          CHR 0x1C, CHR 0x1D, CHR 0x1E, CHR 0x1F, CHR 0x20,
                          CHR 0x85, CHR 0xA0])"

definition strip :: "string \<Rightarrow> string" where
  "strip s = rev (dropWhile isspace (rev (dropWhile isspace s)))"

text \<open>
  \<open>split()\<close>: the maximal runs of characters that are not whitespace. \<open>cur\<close> is the
  run being read.
\<close>

fun split_loop :: "string \<Rightarrow> string \<Rightarrow> string list" where
  "split_loop cur [] = (if cur = [] then [] else [cur])"
| "split_loop cur (c # cs) =
     (if isspace c then (if cur = [] then split_loop [] cs else cur # split_loop [] cs)
      else split_loop (cur @ [c]) cs)"

definition split :: "string \<Rightarrow> string list" where
  "split s = split_loop [] s"

text \<open>
  \<open>upper()\<close> on the letters a to z. Of the other characters below 256 Python maps none
  to an ASCII letter except U+00DF, which becomes \<open>SS\<close>; no command name contains
  \<open>SS\<close>, so a token with such a character is no command name in Python either.
\<close>

definition upper_char :: "char \<Rightarrow> char" where
  "upper_char c =
     (case map_of (zip ''abcdefghijklmnopqrstuvwxyz'' ''ABCDEFGHIJKLMNOPQRSTUVWXYZ'') c of
        None \<Rightarrow> c
      | Some u \<Rightarrow> u)"

definition upper :: "string \<Rightarrow> string" where
  "upper s = map upper_char s"

text \<open>\<open>" ".join(keys)\<close>.\<close>

fun join_space :: "string list \<Rightarrow> string" where
  "join_space [] = []"
| "join_space [k] = k"
| "join_space (k # ks) = k @ '' '' @ join_space ks"

text \<open>\<open>str\<close> of an integer, as \<open>print\<close> writes it.\<close>

fun str_nat :: "nat \<Rightarrow> string" where
  "str_nat n =
     (if n < 10 then [''0123456789'' ! n]
      else str_nat (n div 10) @ [''0123456789'' ! (n mod 10)])"

definition str_int :: "int \<Rightarrow> string" where
  "str_int i = (if i < 0 then ''-'' @ str_nat (nat (- i)) else str_nat (nat i))"

subsection \<open>Command handlers\<close>

text \<open>
  A handler receives the store and the argument tokens. Its result is the boolean it
  returns, the store as the call leaves it, the lines it prints, and the methods of
  \<open>InMemoryDB\<close> it has called, in order. An exception of the store ends the handler.
  The handlers of \<open>COUNTS\<close> and \<open>FIND\<close>, and with them the command loop, take the
  order in which the set of keys is iterated.
\<close>

datatype core_call =
    CallSet string string
  | CallGet string
  | CallUnset string
  | CallCount string
  | CallFind string
  | CallBegin
  | CallRollback
  | CallCommit

type_synonym outcome = "bool \<times> db \<times> string list \<times> core_call list"

type_synonym handler = "db \<Rightarrow> string list \<Rightarrow> error + outcome"

definition handle_set :: handler where
  "handle_set d args =
     (if length args \<noteq> 2 then Inr (False, d, [], [])
      else case set_value d (args ! 0) (args ! 1) of
             Inl e \<Rightarrow> Inl e
           | Inr d' \<Rightarrow> Inr (True, d', [], [CallSet (args ! 0) (args ! 1)]))"

definition handle_get :: handler where
  "handle_get d args =
     (if length args \<noteq> 1 then Inr (False, d, [], [])
      else Inr (True, d,
             [case get_value d (args ! 0) of None \<Rightarrow> ''NULL'' | Some value \<Rightarrow> value],
             [CallGet (args ! 0)]))"

definition handle_unset :: handler where
  "handle_unset d args =
     (if length args \<noteq> 1 then Inr (False, d, [], [])
      else case unset_value d (args ! 0) of
             Inl e \<Rightarrow> Inl e
           | Inr d' \<Rightarrow> Inr (True, d', [], [CallUnset (args ! 0)]))"

definition handle_counts :: "set_order \<Rightarrow> handler" where
  "handle_counts iter d args =
     (if length args \<noteq> 1 then Inr (False, d, [], [])
      else Inr (True, d, [str_int (count_value iter d (args ! 0))], [CallCount (args ! 0)]))"

definition handle_find :: "set_order \<Rightarrow> handler" where
  "handle_find iter d args =
     (if length args \<noteq> 1 then Inr (False, d, [], [])
      else Inr (True, d, [join_space (find_keys_by_value iter d (args ! 0))],
             [CallFind (args ! 0)]))"

definition handle_begin :: handler where
  "handle_begin d args =
     (if length args \<noteq> 0 then Inr (False, d, [], [])
      else Inr (True, begin_tx d, [], [CallBegin]))"

definition handle_rollback :: handler where
  "handle_rollback d args =
     (if length args \<noteq> 0 then Inr (False, d, [], [])
      else case rollback d of
             Inl e \<Rightarrow> Inl e
           | Inr (ok, d') \<Rightarrow>
               Inr (True, d', if \<not> ok then [''NO TRANSACTION''] else [], [CallRollback]))"

definition handle_commit :: handler where
  "handle_commit d args =
     (if length args \<noteq> 0 then Inr (False, d, [], [])
      else case commit d of
             Inl e \<Rightarrow> Inl e
           | Inr (ok, d') \<Rightarrow>
               Inr (True, d', if \<not> ok then [''NO TRANSACTION''] else [], [CallCommit]))"

text \<open>The dictionary \<open>COMMANDS\<close>, read with \<open>COMMANDS.get(cmd)\<close>.\<close>

definition COMMANDS :: "set_order \<Rightarrow> string \<Rightarrow> handler option" where
  "COMMANDS iter = map_of
     [(''SET'', handle_set),
      (''GET'', handle_get),
      (''UNSET'', handle_unset),
      (''COUNTS'', handle_counts iter),
      (''FIND'', handle_find iter),
      (''BEGIN'', handle_begin),
      (''ROLLBACK'', handle_rollback),
      (''COMMIT'', handle_commit)]"

subsection \<open>The command loop\<close>

text \<open>
  One pass through the body of the loop of \<open>main\<close>, for the line that \<open>input\<close> has
  returned: either the loop goes on, with a store, the lines printed and the store
  methods called, or \<open>main\<close> returns an exit code. The prompt is written by \<open>input\<close>
  and is not among the printed lines. Unpacking \<open>cmd_name, *parts\<close> from an empty list
  raises \<open>ValueError\<close>.
\<close>

datatype step = Continue db "string list" "core_call list" | Exit int

definition process_line :: "set_order \<Rightarrow> db \<Rightarrow> string \<Rightarrow> error + step" where
  "process_line iter d raw =
     (let line = strip raw in
      if line = [] then Inr (Continue d [] [])
      else
        (case split line of
           [] \<Rightarrow> Inl ValueError
         | cmd_name # parts \<Rightarrow>
             (let cmd = upper cmd_name in
              if cmd = ''END'' then Inr (Exit 0)
              else
                (case COMMANDS iter cmd of
                   None \<Rightarrow> Inr (Continue d [''ERROR''] [])
                 | Some handler \<Rightarrow>
                     (case handler d parts of
                        Inl e \<Rightarrow> Inl e
                      | Inr (ok, d', printed, called) \<Rightarrow>
                          Inr (Continue d'
                                 (if \<not> ok then printed @ [''ERROR''] else printed)
                                 called))))))"

text \<open>
  What \<open>input\<close> does in one call: it returns a line or raises \<open>KeyboardInterrupt\<close>;
  when the input is exhausted it raises \<open>EOFError\<close>.
\<close>

datatype input_event = Line string | Interrupt

text \<open>
  The loop of \<open>main\<close> from a given store: the exit code and all the lines printed. An
  exception other than the two that \<open>main\<close> catches leaves \<open>main\<close>.
\<close>

fun main_loop ::
  "set_order \<Rightarrow> db \<Rightarrow> input_event list \<Rightarrow> error + (int \<times> string list)" where
  "main_loop iter d [] = Inr (0, [])"
| "main_loop iter d (Interrupt # rest) = Inr (130, [])"
| "main_loop iter d (Line raw # rest) =
     (case process_line iter d raw of
        Inl e \<Rightarrow> Inl e
      | Inr (Exit code) \<Rightarrow> Inr (code, [])
      | Inr (Continue d' printed called) \<Rightarrow>
          (case main_loop iter d' rest of
             Inl e \<Rightarrow> Inl e
           | Inr (code, later) \<Rightarrow> Inr (code, printed @ later)))"

definition main :: "set_order \<Rightarrow> input_event list \<Rightarrow> error + (int \<times> string list)" where
  "main iter events = main_loop iter init_db events"

subsection \<open>Notions of the specification\<close>

text \<open>
  The topmost layer containing a key: the first layer, scanning from the last element of
  the stack down to the base, in which the key appears, with a value or with the marker.
\<close>

definition topmost_layer_with :: "db \<Rightarrow> string \<Rightarrow> layer option" where
  "topmost_layer_with d key = List.find (\<lambda>l. key \<in> set (dict_keys l)) (rev (layers d))"


text \<open>
  The stores that a program can hold: the new store and every store that a method of
  \<open>InMemoryDB\<close> returns normally from such a store. (\<open>get_value\<close>, \<open>count_value\<close> and
  \<open>find_keys_by_value\<close> return no store.)
\<close>

inductive reachable :: "db \<Rightarrow> bool" where
  reach_init: "reachable init_db"
| reach_set: "reachable d \<Longrightarrow> set_value d key v = Inr d' \<Longrightarrow> reachable d'"
| reach_unset: "reachable d \<Longrightarrow> unset_value d key = Inr d' \<Longrightarrow> reachable d'"
| reach_begin: "reachable d \<Longrightarrow> reachable (begin_tx d)"
| reach_rollback: "reachable d \<Longrightarrow> rollback d = Inr (ok, d') \<Longrightarrow> reachable d'"
| reach_commit: "reachable d \<Longrightarrow> commit d = Inr (ok, d') \<Longrightarrow> reachable d'"

text \<open>
  The command table of the specification: the commands and the number of arguments of
  each, \<open>END\<close> among them with none.
\<close>

definition table_args :: "string \<Rightarrow> nat option" where
  "table_args = map_of
     [(''SET'', 2), (''GET'', 1), (''UNSET'', 1), (''COUNTS'', 1), (''FIND'', 1),
      (''BEGIN'', 0), (''ROLLBACK'', 0), (''COMMIT'', 0), (''END'', 0)]"

section \<open>Properties\<close>

subsection \<open>Dictionaries and the resolution of a key\<close>

lemma map_of_dict_set:
  "map_of (dict_set d key e) k = (if k = key then Some e else map_of d k)"
  by (induction d key e rule: dict_set.induct) auto

lemma keys_dict_set: "set (map fst (dict_set d key e)) = insert key (set (map fst d))"
  by (induction d key e rule: dict_set.induct) auto

lemma valid_dict_set: "valid_dict d \<Longrightarrow> valid_dict (dict_set d key e)"
  unfolding valid_dict_def
proof (induction d key e rule: dict_set.induct)
  case (1 key v)
  then show ?case by simp
next
  case (2 k e d key v)
  then show ?case using keys_dict_set [of d key v] by auto
qed

lemma map_of_commit_loop:
  "distinct (map fst top_layer) \<Longrightarrow>
   map_of (commit_loop top_layer below) k =
     (case map_of top_layer k of None \<Rightarrow> map_of below k | Some e \<Rightarrow> Some e)"
  unfolding commit_loop_def
proof (induction top_layer arbitrary: below)
  case Nil
  then show ?case by simp
next
  case (Cons p rest)
  obtain k0 e0 where p: "p = (k0, e0)" by (cases p)
  from Cons.prems p have d: "distinct (map fst rest)" and n: "k0 \<notin> fst ` set rest" by auto
  from n have "map_of rest k0 = None" by (simp add: map_of_eq_None_iff)
  then show ?case using Cons.IH [OF d, of "dict_set below k0 e0"] p
    by (auto simp: map_of_dict_set split: option.splits)
qed

lemma valid_commit_loop: "valid_dict below \<Longrightarrow> valid_dict (commit_loop top_layer below)"
  unfolding commit_loop_def
  by (induction top_layer arbitrary: below) (auto simp: valid_dict_set)

lemma effective_get_loop_find:
  "effective_get_loop ls key =
     (case List.find (\<lambda>l. dict_get l key \<noteq> None) ls of
        None \<Rightarrow> (False, None)
      | Some l \<Rightarrow> (case dict_get l key of
                    Some (Real v) \<Rightarrow> (True, Some v)
                  | _ \<Rightarrow> (False, None)))"
  by (induction ls) (auto split: option.splits entry.splits)


lemma dict_get_None_iff: "dict_get l key = None \<longleftrightarrow> key \<notin> set (dict_keys l)"
  by (simp add: dict_get_def dict_keys_def map_of_eq_None_iff)

lemma topmost_layer_with_decomp:
  assumes "layers d = lows @ l # highs"
    and "\<forall>u\<in>set highs. key \<notin> set (dict_keys u)"
    and "key \<in> set (dict_keys l)"
  shows "topmost_layer_with d key = Some l"
proof -
  have "List.find (\<lambda>l. key \<in> set (dict_keys l)) (rev highs @ l # rev lows) = Some l"
    using assms(2,3) by (induction highs rule: rev_induct) auto
  then show ?thesis using assms(1) by (simp add: topmost_layer_with_def)
qed

lemma topmost_layer_with_None:
  "topmost_layer_with d key = None \<longleftrightarrow> (\<forall>l\<in>set (layers d). key \<notin> set (dict_keys l))"
  by (auto simp: topmost_layer_with_def find_None_iff)

lemma get_value_find:
  "get_value d key =
     (case topmost_layer_with d key of
        None \<Rightarrow> None
      | Some l \<Rightarrow> (case dict_get l key of
                    None \<Rightarrow> None
                  | Some (Real v) \<Rightarrow> Some v
                  | Some Deleted \<Rightarrow> None))"
proof -
  have eq: "(\<lambda>l. dict_get l key \<noteq> None) = (\<lambda>l. key \<in> set (dict_keys l))"
    by (simp add: dict_get_None_iff)
  show ?thesis
    unfolding get_value_def effective_get_def iter_layers_top_down_def
      effective_get_loop_find eq topmost_layer_with_def
    by (simp split: option.splits entry.splits)
qed

lemma get_value_after_unset:
  assumes "layers d \<noteq> []"
  shows "\<exists>d'. unset_value d key = Inr d' \<and> get_value d' key = None
           \<and> butlast (layers d') = butlast (layers d)"
  using assms
  by (simp add: unset_value_def get_value_def effective_get_def iter_layers_top_down_def
      dict_get_def map_of_dict_set)

text \<open>
  Claim C1. \<open>get\<close> returns the value that the topmost layer containing the key holds
  when that entry is a string; it returns nothing when that entry is the marker and when
  no layer contains the key. After \<open>unset\<close> of a key, \<open>get\<close> of it returns nothing,
  whatever the layers below hold, and \<open>unset\<close> leaves those layers as they were.
  \<open>get_value\<close> only reads: it returns a value and no store.
\<close>

theorem get_resolves_topmost_layer:
  "get_value d key =
     (case topmost_layer_with d key of
        None \<Rightarrow> None
      | Some l \<Rightarrow> (case dict_get l key of
                    None \<Rightarrow> None
                  | Some (Real v) \<Rightarrow> Some v
                  | Some Deleted \<Rightarrow> None))
   \<and> (layers d \<noteq> [] \<longrightarrow>
        (\<exists>d'. unset_value d key = Inr d' \<and> get_value d' key = None
              \<and> butlast (layers d') = butlast (layers d)))"
  using get_value_find get_value_after_unset by blast

theorem get_resolves_topmost_layer_witness:
  "layers \<lparr>layers = [[(''a'', Real ''10'')], []]\<rparr> \<noteq> []
   \<and> get_value \<lparr>layers = [[(''a'', Real ''10'')], []]\<rparr> ''a'' = Some ''10''
   \<and> (\<exists>d'. unset_value \<lparr>layers = [[(''a'', Real ''10'')], []]\<rparr> ''a'' = Inr d'
          \<and> get_value d' ''a'' = None
          \<and> butlast (layers d') = [[(''a'', Real ''10'')]])"
  using get_resolves_topmost_layer [of "\<lparr>layers = [[(''a'', Real ''10'')], []]\<rparr>" "''a''"]
  by (simp add: topmost_layer_with_def dict_keys_def dict_get_def)

subsection \<open>Transactions\<close>

lemma commit_two_layers:
  "layers d = rest @ [below, top_layer] \<Longrightarrow>
   commit d = Inr (True, d\<lparr>layers := rest @ [commit_loop top_layer below]\<rparr>)"
  by (simp add: commit_def butlast_append)

text \<open>
  Claim C2. With at least two layers, \<open>commit\<close> returns true and replaces the two
  topmost layers by one: the layer below, in which every item of the top layer has been
  written (a marker like a string), and in which the keys that the top layer does not
  hold keep what the layer below had for them.
\<close>

theorem commit_merges_top_into_below:
  assumes "layers d = rest @ [below, top_layer]" and "valid_dict top_layer"
  shows "\<exists>below'. commit d = Inr (True, d\<lparr>layers := rest @ [below']\<rparr>)
           \<and> (\<forall>(k, e)\<in>set top_layer. dict_get below' k = Some e)
           \<and> (\<forall>k. k \<notin> set (dict_keys top_layer) \<longrightarrow> dict_get below' k = dict_get below k)"
proof -
  let ?b = "commit_loop top_layer below"
  from assms(2) have dist: "distinct (map fst top_layer)" by (simp add: valid_dict_def)
  have m: "\<And>k. dict_get ?b k =
      (case map_of top_layer k of None \<Rightarrow> dict_get below k | Some e \<Rightarrow> Some e)"
    unfolding dict_get_def by (rule map_of_commit_loop [OF dist])
  have 1: "\<forall>(k, e)\<in>set top_layer. dict_get ?b k = Some e"
    using dist by (auto simp: m)
  have 2: "\<forall>k. k \<notin> set (dict_keys top_layer) \<longrightarrow> dict_get ?b k = dict_get below k"
  proof (intro allI impI)
    fix k assume "k \<notin> set (dict_keys top_layer)"
    then have "map_of top_layer k = None"
      using dict_get_None_iff [of top_layer k] by (simp add: dict_get_def)
    then show "dict_get ?b k = dict_get below k" by (simp add: m)
  qed
  from commit_two_layers [OF assms(1)] 1 2 show ?thesis by blast
qed


theorem commit_merges_top_into_below_witness:
  "layers \<lparr>layers = [[(''a'', Real ''1''), (''b'', Real ''2'')], [(''a'', Deleted), (''c'', Real ''3'')]]\<rparr>
     = [] @ [[(''a'', Real ''1''), (''b'', Real ''2'')], [(''a'', Deleted), (''c'', Real ''3'')]]
   \<and> valid_dict [(''a'', Deleted), (''c'', Real ''3'')]
   \<and> (\<exists>below'.
         commit \<lparr>layers = [[(''a'', Real ''1''), (''b'', Real ''2'')], [(''a'', Deleted), (''c'', Real ''3'')]]\<rparr>
           = Inr (True, \<lparr>layers = [below']\<rparr>)
         \<and> dict_get below' ''a'' = Some Deleted
         \<and> dict_get below' ''c'' = Some (Real ''3'')
         \<and> (\<forall>k. k \<noteq> ''a'' \<and> k \<noteq> ''c'' \<longrightarrow>
                dict_get below' k = dict_get [(''a'', Real ''1''), (''b'', Real ''2'')] k))"
  using commit_merges_top_into_below
    [of "\<lparr>layers = [[(''a'', Real ''1''), (''b'', Real ''2'')], [(''a'', Deleted), (''c'', Real ''3'')]]\<rparr>"
        "[]" "[(''a'', Real ''1''), (''b'', Real ''2'')]" "[(''a'', Deleted), (''c'', Real ''3'')]"]
  by (simp add: valid_dict_def dict_keys_def dict_get_def)

text \<open>
  Claim C3. With exactly one layer, \<open>rollback\<close> and \<open>commit\<close> return false; the stack of
  layers and the result of \<open>get\<close> for every key are what they were.
\<close>

theorem base_level_rollback_commit_refuse:
  assumes "length (layers d) = 1"
  shows "(\<exists>d'. rollback d = Inr (False, d') \<and> layers d' = layers d
            \<and> (\<forall>k. get_value d' k = get_value d k))
       \<and> (\<exists>d'. commit d = Inr (False, d') \<and> layers d' = layers d
            \<and> (\<forall>k. get_value d' k = get_value d k))"
  using assms by (simp add: rollback_def commit_def)

theorem base_level_rollback_commit_refuse_witness:
  "length (layers \<lparr>layers = [[(''a'', Real ''1'')]]\<rparr>) = 1
   \<and> (\<exists>d'. rollback \<lparr>layers = [[(''a'', Real ''1'')]]\<rparr> = Inr (False, d')
          \<and> layers d' = [[(''a'', Real ''1'')]]
          \<and> (\<forall>k. get_value d' k = get_value \<lparr>layers = [[(''a'', Real ''1'')]]\<rparr> k))
   \<and> (\<exists>d'. commit \<lparr>layers = [[(''a'', Real ''1'')]]\<rparr> = Inr (False, d')
          \<and> layers d' = [[(''a'', Real ''1'')]]
          \<and> (\<forall>k. get_value d' k = get_value \<lparr>layers = [[(''a'', Real ''1'')]]\<rparr> k))"
  using base_level_rollback_commit_refuse [of "\<lparr>layers = [[(''a'', Real ''1'')]]\<rparr>"]
  by simp

lemma get_value_only_empty_layer: "get_value (d\<lparr>layers := [[]]\<rparr>) key = None"
  by (simp add: get_value_def effective_get_def iter_layers_top_down_def dict_get_def)

lemma get_value_no_layers: "layers d = [] \<Longrightarrow> get_value d key = None"
  by (simp add: get_value_def effective_get_def iter_layers_top_down_def)

text \<open>
  Claim C4. \<open>begin\<close> followed by \<open>rollback\<close> gives a store in which \<open>get\<close> returns for
  every key what it returned before; when the stack was not empty, \<open>rollback\<close> returns
  true and the store is the one before \<open>begin\<close>.
\<close>

theorem begin_rollback_restores:
  "\<exists>ok d'. rollback (begin_tx d) = Inr (ok, d')
      \<and> (\<forall>k. get_value d' k = get_value d k)
      \<and> (layers d \<noteq> [] \<longrightarrow> ok \<and> d' = d)"
proof (cases "layers d = []")
  case True
  then have "rollback (begin_tx d) = Inr (False, d\<lparr>layers := [[]]\<rparr>)"
    by (simp add: rollback_def begin_tx_def)
  moreover have "\<forall>k. get_value (d\<lparr>layers := [[]]\<rparr>) k = get_value d k"
    using True by (simp add: get_value_only_empty_layer get_value_no_layers)
  ultimately show ?thesis using True by blast
next
  case False
  then have "rollback (begin_tx d) = Inr (True, d)"
    by (simp add: rollback_def begin_tx_def)
  then show ?thesis by blast
qed

theorem begin_rollback_restores_witness:
  "layers \<lparr>layers = [[(''a'', Real ''1'')], [(''a'', Deleted)]]\<rparr> \<noteq> []
   \<and> rollback (begin_tx \<lparr>layers = [[(''a'', Real ''1'')], [(''a'', Deleted)]]\<rparr>)
       = Inr (True, \<lparr>layers = [[(''a'', Real ''1'')], [(''a'', Deleted)]]\<rparr>)"
  using begin_rollback_restores [of "\<lparr>layers = [[(''a'', Real ''1'')], [(''a'', Deleted)]]\<rparr>"]
  by auto

text \<open>
  Claim C5. \<open>begin\<close>, \<open>set\<close> of a key and \<open>commit\<close> give a store in which \<open>get\<close>
  returns for every key what it returns after the \<open>set\<close> alone; the two stores are
  equal.
\<close>

theorem begin_set_commit_equals_set:
  assumes "layers d \<noteq> []"
  shows "\<exists>d1 d2 d3. set_value (begin_tx d) key value = Inr d1
           \<and> commit d1 = Inr (True, d2)
           \<and> set_value d key value = Inr d3
           \<and> (\<forall>k. get_value d2 k = get_value d3 k)
           \<and> d2 = d3"
proof -
  obtain rest below where l: "layers d = rest @ [below]"
    using assms by (metis append_butlast_last_id)
  let ?d1 = "d\<lparr>layers := rest @ [below, [(key, Real value)]]\<rparr>"
  have 1: "set_value (begin_tx d) key value = Inr ?d1"
    using l by (simp add: set_value_def begin_tx_def butlast_append)
  have 2: "commit ?d1 = Inr (True, d\<lparr>layers := rest @ [dict_set below key (Real value)]\<rparr>)"
    using commit_two_layers [of ?d1 rest below "[(key, Real value)]"]
    by (simp add: commit_loop_def)
  have 3: "set_value d key value = Inr (d\<lparr>layers := rest @ [dict_set below key (Real value)]\<rparr>)"
    using l by (simp add: set_value_def)
  from 1 2 3 show ?thesis by simp
qed

theorem begin_set_commit_equals_set_witness:
  "layers \<lparr>layers = [[(''a'', Real ''1'')], [(''a'', Deleted)]]\<rparr> \<noteq> []
   \<and> (\<exists>d1 d2 d3.
         set_value (begin_tx \<lparr>layers = [[(''a'', Real ''1'')], [(''a'', Deleted)]]\<rparr>) ''a'' ''7'' = Inr d1
       \<and> commit d1 = Inr (True, d2)
       \<and> set_value \<lparr>layers = [[(''a'', Real ''1'')], [(''a'', Deleted)]]\<rparr> ''a'' ''7'' = Inr d3
       \<and> (\<forall>k. get_value d2 k = get_value d3 k)
       \<and> d2 = d3)"
  using begin_set_commit_equals_set [of "\<lparr>layers = [[(''a'', Real ''1'')], [(''a'', Deleted)]]\<rparr>" "''a''" "''7''"]
  by simp


subsection \<open>Reverse lookups\<close>

lemma fold_union_keys:
  "fold (\<lambda>layer keys. keys \<union> set (dict_keys layer)) ls A = A \<union> (\<Union>l\<in>set ls. set (dict_keys l))"
  by (induction ls arbitrary: A) auto

lemma all_keys_eq: "all_keys d = (\<Union>l\<in>set (layers d). set (dict_keys l))"
  by (simp add: all_keys_def fold_union_keys)

lemma finite_all_keys: "finite (all_keys d)"
  by (simp add: all_keys_eq)

lemma iterates_ascending: "finite keys \<Longrightarrow> iterates sorted_list_of_set keys"
  by (simp add: iterates_def)

lemma iterates_descending: "finite keys \<Longrightarrow> iterates descending keys"
  by (simp add: iterates_def descending_def)

lemma effective_get_match:
  "(case effective_get d key of (exists, eff) \<Rightarrow> exists \<and> eff = Some v)
     \<longleftrightarrow> get_value d key = Some v"
  by (cases "effective_get d key") (auto simp: get_value_def)

lemma count_fold_filter:
  "fold (\<lambda>key count.
            case effective_get d key of
              (exists, eff) \<Rightarrow> if exists \<and> eff = Some value then count + 1 else count)
      keys n
   = n + int (length (filter (\<lambda>key. get_value d key = Some value) keys))"
proof (induction keys arbitrary: n)
  case Nil
  then show ?case by simp
next
  case (Cons key keys)
  show ?case
    using effective_get_match [where d = d and key = key and v = "value"]
    by (cases "effective_get d key") (simp add: Cons.IH)
qed

lemma count_loop_filter:
  "count_loop d value keys = int (length (filter (\<lambda>key. get_value d key = Some value) keys))"
  by (simp add: count_loop_def count_fold_filter)

lemma find_fold_filter:
  "fold (\<lambda>key found.
            case effective_get d key of
              (exists, eff) \<Rightarrow> if exists \<and> eff = Some value then found @ [key] else found)
      keys acc
   = acc @ filter (\<lambda>key. get_value d key = Some value) keys"
proof (induction keys arbitrary: acc)
  case Nil
  then show ?case by simp
next
  case (Cons key keys)
  show ?case
    using effective_get_match [where d = d and key = key and v = "value"]
    by (cases "effective_get d key") (simp add: Cons.IH)
qed

lemma find_loop_filter:
  "find_loop d value keys = filter (\<lambda>key. get_value d key = Some value) keys"
  by (simp add: find_loop_def find_fold_filter)

text \<open>
  The order in which the set of keys is iterated does not change the result of either
  loop.
\<close>

lemma count_loop_any_order:
  assumes "distinct keys" and "distinct keys'" and "set keys = set keys'"
  shows "count_loop d value keys = count_loop d value keys'"
proof -
  let ?P = "\<lambda>key. get_value d key = Some value"
  have "length (filter ?P keys) = card (set (filter ?P keys))"
    using assms(1) distinct_card [of "filter ?P keys"] by simp
  also have "\<dots> = card (set (filter ?P keys'))"
    using assms(3) by simp
  also have "\<dots> = length (filter ?P keys')"
    using assms(2) distinct_card [of "filter ?P keys'"] by simp
  finally show ?thesis by (simp add: count_loop_filter)
qed

lemma find_loop_any_order:
  assumes "distinct keys" and "distinct keys'" and "set keys = set keys'"
  shows "sort (find_loop d value keys) = sort (find_loop d value keys')"
proof (rule sorted_distinct_set_unique)
  show "set (sort (find_loop d value keys)) = set (sort (find_loop d value keys'))"
    using assms(3) by (simp add: find_loop_filter)
qed (use assms in \<open>simp_all add: find_loop_filter\<close>)

lemma get_value_Some_in_all_keys:
  assumes "get_value d key = Some value"
  shows "key \<in> all_keys d"
proof -
  have loop: "effective_get_loop ls key = (True, Some value) \<Longrightarrow>
      \<exists>l\<in>set ls. key \<in> set (dict_keys l)" for ls
    by (induction ls)
      (auto simp: dict_get_def dict_keys_def split: option.splits entry.splits
        dest: map_of_SomeD intro: rev_image_eqI)
  have "effective_get d key = (True, Some value)"
    using assms by (cases "effective_get d key") (auto simp: get_value_def split: if_splits)
  then have "\<exists>l\<in>set (rev (layers d)). key \<in> set (dict_keys l)"
    unfolding effective_get_def iter_layers_top_down_def by (rule loop)
  then show ?thesis
    by (simp add: all_keys_eq)
qed

text \<open>
  Claim C6. For every store and value, \<open>count_value\<close> returns the number of elements of
  the list that \<open>find_keys_by_value\<close> returns, also when the two calls iterate the set
  of keys in different orders.
\<close>

theorem count_equals_number_found:
  "count_value iter d value = int (length (find_keys_by_value iter d value))
   \<and> (iterates iter (all_keys d) \<and> iterates iter' (all_keys d) \<longrightarrow>
        count_value iter d value = int (length (find_keys_by_value iter' d value)))"
proof -
  have same: "count_value i d value = int (length (find_keys_by_value i d value))" for i
    by (simp add: count_value_def find_keys_by_value_def count_loop_filter find_loop_filter)
  have "count_value iter d value = count_value iter' d value"
    if "iterates iter (all_keys d)" and "iterates iter' (all_keys d)"
    unfolding count_value_def
    using that by (intro count_loop_any_order) (simp_all add: iterates_def)
  with same show ?thesis by simp
qed

theorem count_equals_number_found_witness:
  "iterates descending (all_keys \<lparr>layers = [[(''b'', Real ''1''), (''a'', Real ''1'')], [(''c'', Real ''1''), (''a'', Deleted)]]\<rparr>)
   \<and> iterates sorted_list_of_set (all_keys \<lparr>layers = [[(''b'', Real ''1''), (''a'', Real ''1'')], [(''c'', Real ''1''), (''a'', Deleted)]]\<rparr>)
   \<and> count_value descending \<lparr>layers = [[(''b'', Real ''1''), (''a'', Real ''1'')], [(''c'', Real ''1''), (''a'', Deleted)]]\<rparr> ''1'' = 2
   \<and> find_keys_by_value sorted_list_of_set \<lparr>layers = [[(''b'', Real ''1''), (''a'', Real ''1'')], [(''c'', Real ''1''), (''a'', Deleted)]]\<rparr> ''1'' = [''b'', ''c'']"
proof -
  let ?d = "\<lparr>layers = [[(''b'', Real ''1''), (''a'', Real ''1'')], [(''c'', Real ''1''), (''a'', Deleted)]]\<rparr>"
  have f: "find_keys_by_value sorted_list_of_set ?d ''1'' = [''b'', ''c'']"
    by code_simp
  have i: "iterates descending (all_keys ?d)" "iterates sorted_list_of_set (all_keys ?d)"
    by (simp_all add: iterates_descending iterates_ascending finite_all_keys)
  show ?thesis
    using count_equals_number_found [of descending ?d "''1''" sorted_list_of_set] i
    by (simp add: f)
qed

text \<open>
  Claim C7. Whatever the order in which the set of keys is iterated,
  \<open>find_keys_by_value\<close> returns exactly the keys for which \<open>get\<close> returns the value, in
  whichever layer they are held, in strictly ascending order and without duplicates.
\<close>

theorem find_returns_matching_keys_ascending:
  assumes "iterates iter (all_keys d)"
  shows "set (find_keys_by_value iter d value) = {key. get_value d key = Some value}
       \<and> sorted_wrt (<) (find_keys_by_value iter d value)
       \<and> distinct (find_keys_by_value iter d value)"
proof -
  let ?found = "find_keys_by_value iter d value"
  from assms have e: "set (iter (all_keys d)) = all_keys d" and i: "distinct (iter (all_keys d))"
    by (simp_all add: iterates_def)
  have s: "set ?found = {key. get_value d key = Some value}"
    using get_value_Some_in_all_keys [of d _ "value"]
    by (auto simp: find_keys_by_value_def find_loop_filter e)
  have d: "distinct ?found"
    by (simp add: find_keys_by_value_def find_loop_filter i)
  have "sorted ?found"
    by (simp add: find_keys_by_value_def)
  with d have "sorted_wrt (<) ?found"
    by (simp add: strict_sorted_iff)
  with s d show ?thesis by simp
qed

text \<open>
  In the store of the example the loop meets the keys in descending order and collects
  \<open>c\<close> before \<open>b\<close>; the key \<open>b\<close> is held by the base layer only.
\<close>

theorem find_returns_matching_keys_ascending_witness:
  "iterates descending (all_keys \<lparr>layers = [[(''b'', Real ''1''), (''a'', Real ''1'')], [(''c'', Real ''1''), (''a'', Deleted)]]\<rparr>)
   \<and> find_loop \<lparr>layers = [[(''b'', Real ''1''), (''a'', Real ''1'')], [(''c'', Real ''1''), (''a'', Deleted)]]\<rparr> ''1''
         (descending (all_keys \<lparr>layers = [[(''b'', Real ''1''), (''a'', Real ''1'')], [(''c'', Real ''1''), (''a'', Deleted)]]\<rparr>))
       = [''c'', ''b'']
   \<and> find_keys_by_value descending \<lparr>layers = [[(''b'', Real ''1''), (''a'', Real ''1'')], [(''c'', Real ''1''), (''a'', Deleted)]]\<rparr> ''1'' = [''b'', ''c'']
   \<and> {key. get_value \<lparr>layers = [[(''b'', Real ''1''), (''a'', Real ''1'')], [(''c'', Real ''1''), (''a'', Deleted)]]\<rparr> key = Some ''1''} = {''b'', ''c''}"
proof -
  let ?d = "\<lparr>layers = [[(''b'', Real ''1''), (''a'', Real ''1'')], [(''c'', Real ''1''), (''a'', Deleted)]]\<rparr>"
  have l: "find_loop ?d ''1'' (descending (all_keys ?d)) = [''c'', ''b'']"
    by code_simp
  have f: "find_keys_by_value descending ?d ''1'' = [''b'', ''c'']"
    by code_simp
  have i: "iterates descending (all_keys ?d)"
    by (simp add: iterates_descending finite_all_keys)
  show ?thesis
    using find_returns_matching_keys_ascending [OF i, of "''1''"] i l
    by (simp add: f)
qed

subsection \<open>The number of layers\<close>

lemma set_value_layers:
  "layers d \<noteq> [] \<Longrightarrow>
   set_value d key v = Inr (d\<lparr>layers := butlast (layers d) @ [dict_set (last (layers d)) key (Real v)]\<rparr>)"
  by (simp add: set_value_def)

lemma unset_value_layers:
  "layers d \<noteq> [] \<Longrightarrow>
   unset_value d key = Inr (d\<lparr>layers := butlast (layers d) @ [dict_set (last (layers d)) key Deleted]\<rparr>)"
  by (simp add: unset_value_def)

lemma length_cases:
  assumes "layers d \<noteq> []"
  obtains "length (layers d) = 1" | "2 \<le> length (layers d)"
  using assms by (cases "layers d") (auto simp: Suc_le_eq)

lemma rollback_layers:
  assumes "layers d \<noteq> []"
  shows "\<exists>d'. rollback d = Inr (length (layers d) \<noteq> 1, d')
           \<and> layers d' = (if length (layers d) = 1 then layers d else butlast (layers d))
           \<and> layers d' \<noteq> []"
  using assms
proof (cases d rule: length_cases)
  case 1
  then have "rollback d = Inr (False, d)" by (simp add: rollback_def)
  with 1 assms show ?thesis by simp
next
  case 2
  then have "rollback d = Inr (True, d\<lparr>layers := butlast (layers d)\<rparr>)"
    by (auto simp: rollback_def)
  moreover from 2 have "butlast (layers d) \<noteq> []"
    by (cases "layers d") auto
  ultimately show ?thesis using 2 by simp
qed

lemma commit_layers:
  assumes "layers d \<noteq> []"
  shows "\<exists>d'. commit d = Inr (length (layers d) \<noteq> 1, d')
           \<and> length (layers d') = (if length (layers d) = 1 then 1 else length (layers d) - 1)
           \<and> layers d' \<noteq> []"
  using assms
proof (cases d rule: length_cases)
  case 1
  then have "commit d = Inr (False, d)" by (simp add: commit_def)
  with 1 assms show ?thesis by simp
next
  case 2
  then have "commit d = Inr (True, d\<lparr>layers := butlast (butlast (layers d))
      @ [commit_loop (last (layers d)) (last (butlast (layers d)))]\<rparr>)"
    by (auto simp: commit_def Let_def)
  then show ?thesis using 2 by simp
qed

lemma reachable_nonempty: "reachable d \<Longrightarrow> layers d \<noteq> []"
proof (induction rule: reachable.induct)
  case reach_init
  then show ?case by (simp add: init_db_def)
next
  case (reach_set d key v d')
  then show ?case by (auto simp: set_value_def split: if_splits)
next
  case (reach_unset d key d')
  then show ?case by (auto simp: unset_value_def split: if_splits)
next
  case (reach_begin d)
  then show ?case by (simp add: begin_tx_def)
next
  case (reach_rollback d ok d')
  then show ?case using rollback_layers [of d] by auto
next
  case (reach_commit d ok d')
  then show ?case using commit_layers [of d] by auto
qed

text \<open>
  Claim C8. The new store has exactly one layer. \<open>begin\<close> appends one empty layer.
  On a store with at least one layer, \<open>set\<close> and \<open>unset\<close> keep the number of layers;
  \<open>rollback\<close> and \<open>commit\<close> return false and keep the layers when there is one layer,
  and otherwise return true and remove exactly one; the result has at least one layer.
  Hence every store that the methods produce from a new store has at least one layer.
\<close>

theorem layer_stack_never_empty:
  "layers init_db = [[]]
   \<and> layers (begin_tx d) = layers d @ [[]]
   \<and> (layers d \<noteq> [] \<longrightarrow>
        (\<exists>d'. set_value d key v = Inr d' \<and> length (layers d') = length (layers d))
      \<and> (\<exists>d'. unset_value d key = Inr d' \<and> length (layers d') = length (layers d))
      \<and> (\<exists>d'. rollback d = Inr (length (layers d) \<noteq> 1, d')
             \<and> layers d' = (if length (layers d) = 1 then layers d else butlast (layers d))
             \<and> layers d' \<noteq> [])
      \<and> (\<exists>d'. commit d = Inr (length (layers d) \<noteq> 1, d')
             \<and> length (layers d') = (if length (layers d) = 1 then 1 else length (layers d) - 1)
             \<and> layers d' \<noteq> []))
   \<and> (reachable d \<longrightarrow> 1 \<le> length (layers d))"
proof -
  have 1: "layers init_db = [[]]" by (simp add: init_db_def)
  have 2: "layers (begin_tx d) = layers d @ [[]]" by (simp add: begin_tx_def)
  have 3: "\<exists>d'. set_value d key v = Inr d' \<and> length (layers d') = length (layers d)"
    if "layers d \<noteq> []" using that by (simp add: set_value_layers)
  have 4: "\<exists>d'. unset_value d key = Inr d' \<and> length (layers d') = length (layers d)"
    if "layers d \<noteq> []" using that by (simp add: unset_value_layers)
  have 5: "1 \<le> length (layers d)" if "reachable d"
    using reachable_nonempty [OF that] by (cases "layers d") auto
  from 1 2 3 4 5 rollback_layers [of d] commit_layers [of d] show ?thesis by blast
qed

theorem layer_stack_never_empty_witness:
  "layers (begin_tx init_db) \<noteq> [] \<and> reachable (begin_tx init_db)
   \<and> layers (begin_tx init_db) = [[], []]
   \<and> (\<exists>d'. set_value (begin_tx init_db) ''a'' ''1'' = Inr d' \<and> length (layers d') = 2)
   \<and> (\<exists>d'. rollback (begin_tx init_db) = Inr (True, d') \<and> layers d' = [[]])
   \<and> (\<exists>d'. commit (begin_tx init_db) = Inr (True, d') \<and> length (layers d') = 1)"
proof -
  have l: "layers (begin_tx init_db) = [[], []]" by (simp add: begin_tx_def init_db_def)
  have r: "reachable (begin_tx init_db)" by (intro reach_begin reach_init)
  show ?thesis
    using layer_stack_never_empty [of "begin_tx init_db" "''a''" "''1''"] l r by auto
qed


subsection \<open>Every layer is a dictionary\<close>

text \<open>
  The layers of a store that the methods produce hold every key once, as the
  dictionaries of the program do.
\<close>

lemma valid_butlast: "\<forall>l\<in>set ls. valid_dict l \<Longrightarrow> \<forall>l\<in>set (butlast ls). valid_dict l"
  by (meson in_set_butlastD)

lemma valid_update_last:
  assumes "\<forall>l\<in>set ls. valid_dict l" and "ls \<noteq> []"
  shows "\<forall>l\<in>set (butlast ls @ [dict_set (last ls) key e]). valid_dict l"
  using assms valid_butlast [OF assms(1)] by (simp add: valid_dict_set)

lemma reachable_valid_dicts: "reachable d \<Longrightarrow> \<forall>l\<in>set (layers d). valid_dict l"
proof (induction rule: reachable.induct)
  case reach_init
  then show ?case by (simp add: init_db_def valid_dict_def)
next
  case (reach_set d key v d')
  then show ?case
    using valid_update_last [of "layers d" key "Real v"]
    by (auto simp: set_value_def split: if_splits)
next
  case (reach_unset d key d')
  then show ?case
    using valid_update_last [of "layers d" key Deleted]
    by (auto simp: unset_value_def split: if_splits)
next
  case (reach_begin d)
  then show ?case by (simp add: begin_tx_def valid_dict_def)
next
  case (reach_rollback d ok d')
  then show ?case
    using valid_butlast [of "layers d"]
    by (auto simp: rollback_def split: if_splits)
next
  case (reach_commit d ok d')
  show ?case
  proof (cases "2 \<le> length (layers d)")
    case False
    with reach_commit show ?thesis
      by (auto simp: commit_def Let_def split: if_splits)
  next
    case True
    then have "butlast (layers d) \<noteq> []" by (cases "layers d") auto
    then have "last (butlast (layers d)) \<in> set (layers d)"
      by (meson in_set_butlastD last_in_set)
    with reach_commit.IH
    have "valid_dict (commit_loop (last (layers d)) (last (butlast (layers d))))"
      by (simp add: valid_commit_loop)
    moreover have "\<forall>l\<in>set (butlast (butlast (layers d))). valid_dict l"
      using reach_commit.IH by (intro valid_butlast)
    ultimately show ?thesis using reach_commit.hyps(2) True
      by (auto simp: commit_def Let_def split: if_splits)
  qed
qed

subsection \<open>The command loop\<close>

lemma strip_all_space:
  assumes "\<forall>c\<in>set s. isspace c"
  shows "strip s = []"
proof -
  from assms have e: "dropWhile isspace s = []" by simp
  show ?thesis by (simp only: strip_def e dropWhile.simps rev.simps)
qed

lemma split_Nil: "split [] = []"
  by (simp add: split_def)

lemma handlers_reject_wrong_count:
  "length args \<noteq> 2 \<Longrightarrow> handle_set d args = Inr (False, d, [], [])"
  "length args \<noteq> 1 \<Longrightarrow> handle_get d args = Inr (False, d, [], [])"
  "length args \<noteq> 1 \<Longrightarrow> handle_unset d args = Inr (False, d, [], [])"
  "length args \<noteq> 1 \<Longrightarrow> handle_counts iter d args = Inr (False, d, [], [])"
  "length args \<noteq> 1 \<Longrightarrow> handle_find iter d args = Inr (False, d, [], [])"
  "length args \<noteq> 0 \<Longrightarrow> handle_begin d args = Inr (False, d, [], [])"
  "length args \<noteq> 0 \<Longrightarrow> handle_rollback d args = Inr (False, d, [], [])"
  "length args \<noteq> 0 \<Longrightarrow> handle_commit d args = Inr (False, d, [], [])"
  by (simp_all add: handle_set_def handle_get_def handle_unset_def handle_counts_def
      handle_find_def handle_begin_def handle_rollback_def handle_commit_def)

lemma COMMANDS_cases:
  assumes "COMMANDS iter cmd = Some h"
  obtains "cmd = ''SET''" "h = handle_set"
    | "cmd = ''GET''" "h = handle_get"
    | "cmd = ''UNSET''" "h = handle_unset"
    | "cmd = ''COUNTS''" "h = handle_counts iter"
    | "cmd = ''FIND''" "h = handle_find iter"
    | "cmd = ''BEGIN''" "h = handle_begin"
    | "cmd = ''ROLLBACK''" "h = handle_rollback"
    | "cmd = ''COMMIT''" "h = handle_commit"
  using assms unfolding COMMANDS_def by (auto split: if_splits)

lemma COMMANDS_None_table:
  "COMMANDS iter cmd = None \<Longrightarrow> cmd \<noteq> ''END'' \<Longrightarrow> table_args cmd = None"
  unfolding COMMANDS_def table_args_def by (auto split: if_splits)

lemma handler_rejects:
  assumes "COMMANDS iter cmd = Some h" and "table_args cmd \<noteq> Some (length parts)"
  shows "h d parts = Inr (False, d, [], [])"
  using assms(1)
proof (cases rule: COMMANDS_cases)
  case 1
  with assms(2) show ?thesis by (simp add: table_args_def handlers_reject_wrong_count)
next
  case 2
  with assms(2) show ?thesis by (simp add: table_args_def handlers_reject_wrong_count)
next
  case 3
  with assms(2) show ?thesis by (simp add: table_args_def handlers_reject_wrong_count)
next
  case 4
  with assms(2) show ?thesis by (simp add: table_args_def handlers_reject_wrong_count)
next
  case 5
  with assms(2) show ?thesis by (simp add: table_args_def handlers_reject_wrong_count)
next
  case 6
  with assms(2) show ?thesis by (simp add: table_args_def handlers_reject_wrong_count)
next
  case 7
  with assms(2) show ?thesis by (simp add: table_args_def handlers_reject_wrong_count)
next
  case 8
  with assms(2) show ?thesis by (simp add: table_args_def handlers_reject_wrong_count)
qed

lemma process_line_tokens:
  assumes "split (strip raw) = cmd_name # parts"
  shows "process_line iter d raw =
     (if upper cmd_name = ''END'' then Inr (Exit 0)
      else case COMMANDS iter (upper cmd_name) of
             None \<Rightarrow> Inr (Continue d [''ERROR''] [])
           | Some handler \<Rightarrow>
               (case handler d parts of
                  Inl e \<Rightarrow> Inl e
                | Inr (ok, d', printed, called) \<Rightarrow>
                    Inr (Continue d' (if \<not> ok then printed @ [''ERROR''] else printed) called)))"
proof -
  from assms have "strip raw \<noteq> []" using split_Nil by auto
  with assms show ?thesis by (simp add: process_line_def Let_def)
qed

lemma tokens_GET: "split (strip ''GET'') = [''GET'']"
  by (simp add: strip_def split_def isspace_def)
lemma tokens_end_x: "split (strip '' end  x '') = [''end'', ''x'']"
  by (simp add: strip_def split_def isspace_def)
lemma tokens_FOO_x: "split (strip ''FOO x'') = [''FOO'', ''x'']"
  by (simp add: strip_def split_def isspace_def)
lemma tokens_END: "split (strip ''END'') = [''END'']"
  by (simp add: strip_def split_def isspace_def)

lemma upper_examples:
  "upper ''end'' = ''END''" "upper ''GET'' = ''GET''" "upper ''FOO'' = ''FOO''"
  "upper ''END'' = ''END''"
  by (simp_all add: upper_def upper_char_def)

text \<open>
  Claim C9, as amended. When the first token of a line, in upper case, is \<open>END\<close>,
  \<open>main\<close> returns 0 and prints nothing, with or without arguments after it. When it is
  not \<open>END\<close> and either names no command or names a command of the table with another
  number of arguments than the table gives, the loop prints exactly \<open>ERROR\<close>, calls no
  method of the store and goes on with the store unchanged.
\<close>

theorem malformed_command_prints_error:
  assumes "split (strip raw) = cmd_name # parts"
  shows "(upper cmd_name = ''END'' \<longrightarrow> process_line iter d raw = Inr (Exit 0))
       \<and> (upper cmd_name \<noteq> ''END'' \<and> table_args (upper cmd_name) \<noteq> Some (length parts) \<longrightarrow>
            process_line iter d raw = Inr (Continue d [''ERROR''] []))"
proof (intro conjI impI)
  assume "upper cmd_name = ''END''"
  then show "process_line iter d raw = Inr (Exit 0)"
    by (simp add: process_line_tokens [OF assms])
next
  assume a: "upper cmd_name \<noteq> ''END'' \<and> table_args (upper cmd_name) \<noteq> Some (length parts)"
  show "process_line iter d raw = Inr (Continue d [''ERROR''] [])"
  proof (cases "COMMANDS iter (upper cmd_name)")
    case None
    with a show ?thesis by (simp add: process_line_tokens [OF assms])
  next
    case (Some h)
    from a have "table_args (upper cmd_name) \<noteq> Some (length parts)" by simp
    from handler_rejects [OF Some this] Some a show ?thesis
      by (simp add: process_line_tokens [OF assms])
  qed
qed

theorem malformed_command_prints_error_witness:
  "split (strip ''GET'') = [''GET'']
   \<and> upper ''GET'' \<noteq> ''END''
   \<and> table_args (upper ''GET'') \<noteq> Some (length ([] :: string list))
   \<and> process_line descending init_db ''GET'' = Inr (Continue init_db [''ERROR''] [])
   \<and> split (strip ''FOO x'') = [''FOO'', ''x'']
   \<and> upper ''FOO'' \<noteq> ''END''
   \<and> table_args (upper ''FOO'') \<noteq> Some (length [''x''])
   \<and> process_line descending init_db ''FOO x'' = Inr (Continue init_db [''ERROR''] [])
   \<and> split (strip '' end  x '') = [''end'', ''x'']
   \<and> upper ''end'' = ''END''
   \<and> process_line descending init_db '' end  x '' = Inr (Exit 0)
   \<and> split (strip ''END'') = [''END'']
   \<and> upper ''END'' = ''END''
   \<and> process_line descending init_db ''END'' = Inr (Exit 0)"
  using malformed_command_prints_error
      [where raw = "''GET''" and cmd_name = "''GET''" and parts = "[]"
        and iter = descending and d = init_db]
    malformed_command_prints_error
      [where raw = "''FOO x''" and cmd_name = "''FOO''" and parts = "[''x'']"
        and iter = descending and d = init_db]
    malformed_command_prints_error
      [where raw = "'' end  x ''" and cmd_name = "''end''" and parts = "[''x'']"
        and iter = descending and d = init_db]
    malformed_command_prints_error
      [where raw = "''END''" and cmd_name = "''END''" and parts = "[]"
        and iter = descending and d = init_db]
  by (simp add: tokens_GET tokens_end_x tokens_FOO_x tokens_END upper_examples table_args_def)

text \<open>
  The claim as it was stated includes \<open>END\<close> followed by arguments among the lines that
  print \<open>ERROR\<close>. For the line \<open>END x\<close> the table gives no argument and the line has
  one, and \<open>main\<close> returns 0 without printing.
\<close>

theorem end_with_arguments_counterexample:
  "split (strip ''END x'') = [''END'', ''x'']
   \<and> table_args (upper ''END'') = Some 0
   \<and> table_args (upper ''END'') \<noteq> Some (length [''x''])
   \<and> process_line descending init_db ''END x'' = Inr (Exit 0)
   \<and> process_line descending init_db ''END x'' \<noteq> Inr (Continue init_db [''ERROR''] [])"
  by (simp add: process_line_def strip_def split_def isspace_def upper_def upper_char_def
      table_args_def)

text \<open>
  Claim C10. For a line that is empty or holds only whitespace the loop prints nothing,
  calls no method of the store, keeps the store and goes on with the next line.
\<close>

theorem blank_line_is_skipped:
  assumes "\<forall>c\<in>set raw. isspace c"
  shows "process_line iter d raw = Inr (Continue d [] [])
       \<and> main_loop iter d (Line raw # rest) = main_loop iter d rest"
proof -
  have p: "process_line iter d raw = Inr (Continue d [] [])"
    using strip_all_space [OF assms] by (simp add: process_line_def)
  have "main_loop iter d (Line raw # rest) = main_loop iter d rest"
    by (cases "main_loop iter d rest") (auto simp: p)
  with p show ?thesis by simp
qed

theorem blank_line_is_skipped_witness:
  "(\<forall>c\<in>set [CHR '' '', CHR 0x09, CHR '' '']. isspace c) = True
   \<and> process_line descending init_db [CHR '' '', CHR 0x09, CHR '' ''] = Inr (Continue init_db [] [])
   \<and> main_loop descending init_db [Line [CHR '' '', CHR 0x09, CHR '' ''], Line ''GET a'']
       = main_loop descending init_db [Line ''GET a'']"
  using blank_line_is_skipped
      [where raw = "[CHR '' '', CHR 0x09, CHR '' '']" and iter = descending and d = init_db
        and rest = "[Line ''GET a'']"]
  by (simp add: isspace_def del: main_loop.simps)

text \<open>
  The loop never leaves \<open>main\<close> by an exception of the store or of the unpacking: for
  every finite input \<open>main\<close> returns 0 or 130.
\<close>

lemma strip_has_token:
  assumes "strip s \<noteq> []"
  shows "\<exists>c\<in>set (strip s). \<not> isspace c"
proof -
  let ?r = "dropWhile isspace (rev (dropWhile isspace s))"
  from assms have ne: "?r \<noteq> []" by (simp add: strip_def)
  then have "\<not> isspace (hd ?r)" by (rule hd_dropWhile)
  moreover from ne have "hd ?r \<in> set ?r" by simp
  ultimately show ?thesis unfolding strip_def by (metis set_rev)
qed

lemma split_loop_nonempty:
  "cur \<noteq> [] \<or> (\<exists>c\<in>set s. \<not> isspace c) \<Longrightarrow> split_loop cur s \<noteq> []"
  by (induction s arbitrary: cur) auto

lemma split_strip_nonempty: "strip raw \<noteq> [] \<Longrightarrow> split (strip raw) \<noteq> []"
  using strip_has_token [of raw] split_loop_nonempty [of "[]" "strip raw"]
  by (simp add: split_def)

lemma handler_total:
  assumes "COMMANDS iter cmd = Some h" and "layers d \<noteq> []"
  shows "\<exists>r. h d parts = Inr r \<and> layers (fst (snd r)) \<noteq> []"
  using assms(1)
proof (cases rule: COMMANDS_cases)
  case 1
  then show ?thesis using assms(2) by (auto simp add: handle_set_def set_value_def)
next
  case 2
  then show ?thesis using assms(2) by (auto simp add: handle_get_def)
next
  case 3
  then show ?thesis using assms(2) by (auto simp add: handle_unset_def unset_value_def)
next
  case 4
  then show ?thesis using assms(2) by (auto simp add: handle_counts_def)
next
  case 5
  then show ?thesis using assms(2) by (auto simp add: handle_find_def)
next
  case 6
  then show ?thesis using assms(2) by (auto simp add: handle_begin_def begin_tx_def)
next
  case 7
  then show ?thesis using rollback_layers [OF assms(2)] by (auto simp: handle_rollback_def)
next
  case 8
  then show ?thesis using commit_layers [OF assms(2)] by (auto simp: handle_commit_def)
qed

lemma process_line_total:
  assumes "layers d \<noteq> []"
  shows "(\<exists>code. process_line iter d raw = Inr (Exit code) \<and> code = 0)
       \<or> (\<exists>d' printed called. process_line iter d raw = Inr (Continue d' printed called)
             \<and> layers d' \<noteq> [])"
proof (cases "strip raw = []")
  case True
  then show ?thesis using assms by (simp add: process_line_def)
next
  case False
  then obtain cmd_name parts where t: "split (strip raw) = cmd_name # parts"
    using split_strip_nonempty [of raw] by (cases "split (strip raw)") auto
  show ?thesis
  proof (cases "COMMANDS iter (upper cmd_name)")
    case None
    then show ?thesis using assms by (simp add: process_line_tokens [OF t])
  next
    case (Some h)
    from handler_total [OF Some assms, of parts] obtain r
      where r: "h d parts = Inr r" and l: "layers (fst (snd r)) \<noteq> []" by blast
    obtain ok d' printed called where "r = (ok, d', printed, called)"
      by (cases r) auto
    with r l Some show ?thesis by (simp add: process_line_tokens [OF t])
  qed
qed

lemma main_loop_total:
  "layers d \<noteq> [] \<Longrightarrow>
   \<exists>code printed. main_loop iter d events = Inr (code, printed) \<and> (code = 0 \<or> code = 130)"
proof (induction events arbitrary: d)
  case Nil
  then show ?case by simp
next
  case (Cons ev events)
  show ?case
  proof (cases ev)
    case Interrupt
    then show ?thesis by simp
  next
    case (Line raw)
    from process_line_total [OF Cons.prems, where raw = raw and iter = iter] show ?thesis
    proof
      assume "\<exists>code. process_line iter d raw = Inr (Exit code) \<and> code = 0"
      then show ?thesis using Line by auto
    next
      assume "\<exists>d' printed called. process_line iter d raw = Inr (Continue d' printed called)
                \<and> layers d' \<noteq> []"
      then obtain d' printed called
        where p: "process_line iter d raw = Inr (Continue d' printed called)"
          and l: "layers d' \<noteq> []" by blast
      from Cons.IH [OF l] obtain code later
        where "main_loop iter d' events = Inr (code, later)" and "code = 0 \<or> code = 130" by blast
      with p Line show ?thesis by simp
    qed
  qed
qed

lemma main_returns:
  "\<exists>code printed. main iter events = Inr (code, printed) \<and> (code = 0 \<or> code = 130)"
  unfolding main_def by (rule main_loop_total) (simp add: init_db_def)

end
